theory Spec2Isabelle
  imports Main "HOL-Library.AList"
begin

section \<open>The LFU cache of \<^verbatim>\<open>0x01-caching/100-lfu_cache.py\<close>\<close>

subsection \<open>Python dictionaries\<close>

text \<open>
  A Python \<^verbatim>\<open>dict\<close> (and an \<^verbatim>\<open>OrderedDict\<close>) keeps its keys in insertion order, so it
  is an association list. \<^verbatim>\<open>d[k] = v\<close> overwrites in place when \<^verbatim>\<open>k\<close> is present and
  appends otherwise, which is \<^const>\<open>AList.update\<close>; \<^verbatim>\<open>k in d\<close> and \<^verbatim>\<open>d[k]\<close> read
  \<^const>\<open>map_of\<close>. The exceptions the module can raise are values of \<open>error\<close>.
\<close>

datatype error = KeyError | ValueError | StopIteration

type_synonym ('k, 'v) dict = "('k \<times> 'v) list"

text \<open>\<^verbatim>\<open>d.pop(k)\<close>: removes the key and returns its value, \<^verbatim>\<open>KeyError\<close> when absent.\<close>

definition pop :: "'k \<Rightarrow> ('k, 'v) dict \<Rightarrow> error + ('v \<times> ('k, 'v) dict)" where
  "pop k d = (case map_of d k of
                None \<Rightarrow> Inl KeyError
              | Some v \<Rightarrow> Inr (v, AList.delete k d))"

text \<open>
  \<^verbatim>\<open>d[k]\<close> on a \<^verbatim>\<open>defaultdict\<close>: a missing key is first inserted with the default
  value, so the read returns the value together with the dictionary it leaves.
\<close>

definition getitem_default :: "'v \<Rightarrow> 'k \<Rightarrow> ('k, 'v) dict \<Rightarrow> 'v \<times> ('k, 'v) dict" where
  "getitem_default dflt k d = (case map_of d k of
                                 None \<Rightarrow> (dflt, d @ [(k, dflt)])
                               | Some v \<Rightarrow> (v, d))"

text \<open>\<^verbatim>\<open>min(xs)\<close>: \<^verbatim>\<open>ValueError\<close> on an empty sequence.\<close>

definition py_min :: "int list \<Rightarrow> error + int" where
  "py_min xs = (if xs = [] then Inl ValueError else Inr (min_list xs))"

text \<open>\<^verbatim>\<open>next(iter(d))\<close>: the first key, \<^verbatim>\<open>StopIteration\<close> on an empty dictionary.\<close>

definition next_iter :: "('k, 'v) dict \<Rightarrow> error + 'k" where
  "next_iter d = (case d of [] \<Rightarrow> Inl StopIteration | p # _ \<Rightarrow> Inr (fst p))"

subsection \<open>The cache object\<close>

text \<open>
  The four attributes set by \<^verbatim>\<open>LFUCache.__init__\<close>. Keys and items that are
  \<^verbatim>\<open>None\<close> are rejected before anything is stored, so the dictionaries hold keys of
  type \<open>'k\<close> and items of type \<open>'v\<close>; an argument that may be \<^verbatim>\<open>None\<close> has an option
  type. Frequencies and the counter are Python integers.
\<close>

record ('k, 'v) LFUCache =
  cache_data :: "('k, 'v) dict"
  frequency :: "('k, int) dict"
  lru :: "(int, ('k, int) dict) dict"
  lru_counter :: int

definition init :: "('k, 'v) LFUCache" where
  "init = \<lparr>cache_data = [], frequency = [], lru = [], lru_counter = 0\<rparr>"

text \<open>What \<^verbatim>\<open>print\<close> writes: the line \<^verbatim>\<open>DISCARD: <key>\<close>.\<close>

datatype 'k line = DISCARD 'k

subsection \<open>\<^verbatim>\<open>get\<close>\<close>

definition get :: "'k option \<Rightarrow> ('k, 'v) LFUCache \<Rightarrow> error + (('k, 'v) LFUCache \<times> 'v option)" where
  "get key s =
    (case key of
       None \<Rightarrow> Inr (s, None)
     | Some k \<Rightarrow>
        (case map_of (cache_data s) k of
           None \<Rightarrow> Inr (s, None)
         | Some val \<Rightarrow>
            (let (freq, fr0) = getitem_default 0 k (frequency s);
                 (old, fr1) = getitem_default 0 k fr0;
                 fr2 = AList.update k (old + 1) fr1;
                 (b, l0) = getitem_default [] freq (lru s)
             in (case pop k b of
                   Inl e \<Rightarrow> Inl e
                 | Inr (_, b') \<Rightarrow>
                    (let l1 = AList.update freq b' l0;
                         l2 = (if b' = [] then AList.delete freq l1 else l1);
                         (b2, l3) = getitem_default [] (freq + 1) l2;
                         l4 = AList.update (freq + 1) (AList.update k (lru_counter s) b2) l3
                     in Inr (s\<lparr>frequency := fr2, lru := l4,
                                lru_counter := lru_counter s + 1\<rparr>, Some val))))))"

subsection \<open>\<^verbatim>\<open>put\<close>\<close>

text \<open>
  The eviction branch of \<^verbatim>\<open>put\<close> (lines 58 to 65). \<^verbatim>\<open>self.lru[min_freq]\<close> is a
  \<^verbatim>\<open>defaultdict\<close> read; the bucket it returns is mutated in place by its \<^verbatim>\<open>pop\<close>.
\<close>

definition evict :: "('k, 'v) LFUCache \<Rightarrow> error + (('k, 'v) LFUCache \<times> 'k line list)" where
  "evict s =
    (case py_min (map snd (frequency s)) of
       Inl e \<Rightarrow> Inl e
     | Inr min_freq \<Rightarrow>
        (let (b, l0) = getitem_default [] min_freq (lru s)
         in (case next_iter b of
               Inl e \<Rightarrow> Inl e
             | Inr lru_key \<Rightarrow>
                (case pop lru_key (cache_data s) of
                   Inl e \<Rightarrow> Inl e
                 | Inr (_, cd) \<Rightarrow>
                    (case pop lru_key (frequency s) of
                       Inl e \<Rightarrow> Inl e
                     | Inr (_, fr) \<Rightarrow>
                        (case pop lru_key b of
                           Inl e \<Rightarrow> Inl e
                         | Inr (_, b') \<Rightarrow>
                            (let l1 = AList.update min_freq b' l0;
                                 l2 = (if b' = [] then AList.delete min_freq l1 else l1)
                             in Inr (s\<lparr>cache_data := cd, frequency := fr, lru := l2\<rparr>,
                                     [DISCARD lru_key]))))))))"

text \<open>
  \<open>MAX_ITEMS\<close> is the class constant \<^verbatim>\<open>BaseCaching.MAX_ITEMS\<close>; the module that
  defines it is not part of the sources, so it is a parameter here. It is a count
  of entries, hence a natural number.
\<close>

definition put :: "nat \<Rightarrow> 'k option \<Rightarrow> 'v option \<Rightarrow> ('k, 'v) LFUCache
    \<Rightarrow> error + (('k, 'v) LFUCache \<times> 'k line list)" where
  "put MAX_ITEMS key item s =
    (case key of
       None \<Rightarrow> Inr (s, [])
     | Some k \<Rightarrow>
        (case item of
           None \<Rightarrow> Inr (s, [])
         | Some v \<Rightarrow>
            if map_of (cache_data s) k \<noteq> None then
              (case get (Some k) (s\<lparr>cache_data := AList.update k v (cache_data s)\<rparr>) of
                 Inl e \<Rightarrow> Inl e
               | Inr (s', _) \<Rightarrow> Inr (s', []))
            else
              (case (if MAX_ITEMS \<le> length (cache_data s) then evict s else Inr (s, [])) of
                 Inl e \<Rightarrow> Inl e
               | Inr (s1, out) \<Rightarrow>
                  (let (b, l0) = getitem_default [] 1 (lru s1)
                   in Inr (s1\<lparr>cache_data := AList.update k v (cache_data s1),
                              frequency := AList.update k 1 (frequency s1),
                              lru := AList.update 1 (AList.update k (lru_counter s1) b) l0,
                              lru_counter := lru_counter s1 + 1\<rparr>, out)))))"

subsection \<open>Sequences of calls\<close>

datatype ('k, 'v) call = Put "'k option" "'v option" | Get "'k option"

fun exec :: "nat \<Rightarrow> ('k, 'v) call \<Rightarrow> ('k, 'v) LFUCache \<Rightarrow> error + ('k, 'v) LFUCache" where
  "exec MAX_ITEMS (Put key item) s =
     (case put MAX_ITEMS key item s of Inl e \<Rightarrow> Inl e | Inr (s', _) \<Rightarrow> Inr s')"
| "exec MAX_ITEMS (Get key) s =
     (case get key s of Inl e \<Rightarrow> Inl e | Inr (s', _) \<Rightarrow> Inr s')"

text \<open>A sequence of calls on one cache object stops at the first exception.\<close>

fun run :: "nat \<Rightarrow> ('k, 'v) call list \<Rightarrow> ('k, 'v) LFUCache \<Rightarrow> error + ('k, 'v) LFUCache" where
  "run MAX_ITEMS [] s = Inr s"
| "run MAX_ITEMS (c # cs) s =
     (case exec MAX_ITEMS c s of Inl e \<Rightarrow> Inl e | Inr s' \<Rightarrow> run MAX_ITEMS cs s')"

subsection \<open>The invariant of the three dictionaries\<close>

text \<open>
  \<open>bucket l f\<close> is what the frequency index holds for the frequency \<open>f\<close>: the ordered
  dictionary from keys to sequence stamps, empty when the index has no entry for \<open>f\<close>.
\<close>

definition bucket :: "(int, ('k, int) dict) dict \<Rightarrow> int \<Rightarrow> ('k, int) dict" where
  "bucket l f = (case map_of l f of None \<Rightarrow> [] | Some b \<Rightarrow> b)"

text \<open>
  The two updates of the index that \<^const>\<open>get\<close> and \<^const>\<open>put\<close> are made of: taking a
  key out of the bucket of its frequency (and dropping the bucket when it becomes empty),
  and stamping a key into a bucket.
\<close>

definition bucket_remove :: "int \<Rightarrow> 'k \<Rightarrow> (int, ('k, int) dict) dict \<Rightarrow> (int, ('k, int) dict) dict" where
  "bucket_remove f k l =
     (if AList.delete k (bucket l f) = [] then AList.delete f l
      else AList.update f (AList.delete k (bucket l f)) l)"

definition bucket_add :: "int \<Rightarrow> 'k \<Rightarrow> int \<Rightarrow> (int, ('k, int) dict) dict \<Rightarrow> (int, ('k, int) dict) dict" where
  "bucket_add f k c l = AList.update f (AList.update k c (bucket l f)) l"

text \<open>The states the three kinds of change lead to.\<close>

definition promote :: "'k \<Rightarrow> int \<Rightarrow> ('k, 'v) LFUCache \<Rightarrow> ('k, 'v) LFUCache" where
  "promote k f s =
     s\<lparr>frequency := AList.update k (f + 1) (frequency s),
       lru := bucket_add (f + 1) k (lru_counter s) (bucket_remove f k (lru s)),
       lru_counter := lru_counter s + 1\<rparr>"

definition discard :: "'k \<Rightarrow> int \<Rightarrow> ('k, 'v) LFUCache \<Rightarrow> ('k, 'v) LFUCache" where
  "discard k f s =
     s\<lparr>cache_data := AList.delete k (cache_data s),
       frequency := AList.delete k (frequency s),
       lru := bucket_remove f k (lru s)\<rparr>"

definition insert_new :: "'k \<Rightarrow> 'v \<Rightarrow> ('k, 'v) LFUCache \<Rightarrow> ('k, 'v) LFUCache" where
  "insert_new k v s =
     s\<lparr>cache_data := AList.update k v (cache_data s),
       frequency := AList.update k 1 (frequency s),
       lru := bucket_add 1 k (lru_counter s) (lru s),
       lru_counter := lru_counter s + 1\<rparr>"

text \<open>
  The index \<open>l\<close> agrees with the frequencies \<open>F\<close> and the counter \<open>c\<close>: the index has no
  duplicate and no empty bucket, every bucket lists distinct keys by increasing stamp, all
  of them at the frequency of the bucket and stamped below the counter, and every key is
  in the bucket of its frequency. Frequencies are at least 1.
\<close>

definition index_ok :: "('k \<rightharpoonup> int) \<Rightarrow> (int, ('k, int) dict) dict \<Rightarrow> int \<Rightarrow> bool" where
  "index_ok F l c \<longleftrightarrow>
     distinct (map fst l) \<and>
     (\<forall>f b. map_of l f = Some b \<longrightarrow> b \<noteq> []) \<and>
     (\<forall>f. distinct (map fst (bucket l f)) \<and> sorted_wrt (<) (map snd (bucket l f)) \<and>
          (\<forall>k n. (k, n) \<in> set (bucket l f) \<longrightarrow> F k = Some f \<and> n < c)) \<and>
     (\<forall>k f. F k = Some f \<longrightarrow> 1 \<le> f \<and> k \<in> fst ` set (bucket l f))"

definition cache_inv :: "('k, 'v) LFUCache \<Rightarrow> bool" where
  "cache_inv s \<longleftrightarrow>
     distinct (map fst (cache_data s)) \<and> distinct (map fst (frequency s)) \<and>
     fst ` set (cache_data s) = fst ` set (frequency s) \<and>
     index_ok (map_of (frequency s)) (lru s) (lru_counter s)"

definition lfu_inv :: "nat \<Rightarrow> ('k, 'v) LFUCache \<Rightarrow> bool" where
  "lfu_inv M s \<longleftrightarrow> cache_inv s \<and> length (cache_data s) \<le> M"

subsection \<open>Two example runs with \<open>MAX_ITEMS = 2\<close>\<close>

text \<open>
  After \<^verbatim>\<open>put("A", 1); put("B", 2); get("A")\<close> the cache is full, \<^verbatim>\<open>A\<close> has frequency 2
  and \<^verbatim>\<open>B\<close> frequency 1.
\<close>

definition example_calls :: "(string, int) call list" where
  "example_calls = [Put (Some ''A'') (Some 1), Put (Some ''B'') (Some 2), Get (Some ''A'')]"

definition example_state :: "(string, int) LFUCache" where
  "example_state =
     \<lparr>cache_data = [(''A'', 1), (''B'', 2)], frequency = [(''A'', 2), (''B'', 1)],
      lru = [(1, [(''B'', 1)]), (2, [(''A'', 2)])], lru_counter = 3\<rparr>"

text \<open>
  After \<^verbatim>\<open>put("A", 1); put("B", 2); get("B"); get("A")\<close> both keys have frequency 2,
  and \<^verbatim>\<open>B\<close>, inserted last, was promoted first.
\<close>

definition tie_calls :: "(string, int) call list" where
  "tie_calls = [Put (Some ''A'') (Some 1), Put (Some ''B'') (Some 2), Get (Some ''B''),
                Get (Some ''A'')]"

definition tie_state :: "(string, int) LFUCache" where
  "tie_state =
     \<lparr>cache_data = [(''A'', 1), (''B'', 2)], frequency = [(''A'', 2), (''B'', 2)],
      lru = [(2, [(''B'', 2), (''A'', 3)])], lru_counter = 4\<rparr>"

subsection \<open>Association lists as dictionaries\<close>

lemma update_absent: "map_of al k = None \<Longrightarrow> AList.update k v al = al @ [(k, v)]"
  by (induction al) (auto split: if_splits)

lemma update_snoc_same: "map_of al k = None \<Longrightarrow> AList.update k v (al @ [(k, w)]) = al @ [(k, v)]"
  by (induction al) (auto split: if_splits)

lemma length_delete_present:
  "distinct (map fst al) \<Longrightarrow> map_of al k = Some v \<Longrightarrow> Suc (length (AList.delete k al)) = length al"
proof (induction al)
  case Nil
  then show ?case by simp
next
  case (Cons p ps)
  show ?case
  proof (cases "fst p = k")
    case True
    with Cons.prems have "k \<notin> fst ` set ps" by auto
    with True show ?thesis by simp
  next
    case False
    with Cons show ?thesis by simp
  qed
qed

lemma length_update_present: "map_of al k = Some w \<Longrightarrow> length (AList.update k v al) = length al"
  by (induction al) (auto split: if_splits)

subsection \<open>Buckets after an update of the index\<close>

lemma map_of_bucket_remove:
  "map_of (bucket_remove f k l) g =
     (if g = f then (if AList.delete k (bucket l f) = [] then None else Some (AList.delete k (bucket l f)))
      else map_of l g)"
  by (simp add: bucket_remove_def AList.delete_conv AList.update_conv)

lemma map_of_bucket_add:
  "map_of (bucket_add f k c l) g =
     (if g = f then Some (AList.update k c (bucket l f)) else map_of l g)"
  by (simp add: bucket_add_def AList.update_conv)

lemma bucket_bucket_remove:
  "bucket (bucket_remove f k l) g = (if g = f then AList.delete k (bucket l f) else bucket l g)"
  by (simp add: bucket_def map_of_bucket_remove)

lemma bucket_bucket_add:
  "bucket (bucket_add f k c l) g = (if g = f then AList.update k c (bucket l f) else bucket l g)"
  by (simp add: bucket_def map_of_bucket_add)

lemma distinct_bucket_remove: "distinct (map fst l) \<Longrightarrow> distinct (map fst (bucket_remove f k l))"
  by (simp add: bucket_remove_def AList.distinct_delete AList.distinct_update)

lemma distinct_bucket_add: "distinct (map fst l) \<Longrightarrow> distinct (map fst (bucket_add f k c l))"
  by (simp add: bucket_add_def AList.distinct_update)

subsection \<open>\<^verbatim>\<open>get\<close>, \<^verbatim>\<open>evict\<close> and \<^verbatim>\<open>put\<close> on an indexed key\<close>

lemma getitem_default_present: "map_of d k = Some v \<Longrightarrow> getitem_default dflt k d = (v, d)"
  by (simp add: getitem_default_def)

lemma update_getitem_default:
  "(case getitem_default [] g l of (b, l') \<Rightarrow> AList.update g (AList.update k x b) l') = bucket_add g k x l"
  by (simp add: getitem_default_def bucket_add_def bucket_def update_snoc_same update_absent
      split: option.splits)

lemma get_present:
  assumes "map_of (cache_data s) k = Some v" and "map_of (frequency s) k = Some f"
    and "map_of (bucket (lru s) f) k = Some n"
  shows "get (Some k) s =
    Inr (s\<lparr>frequency := AList.update k (f + 1) (frequency s),
           lru := bucket_add (f + 1) k (lru_counter s) (bucket_remove f k (lru s)),
           lru_counter := lru_counter s + 1\<rparr>, Some v)"
proof -
  from assms(3) obtain b where b: "map_of (lru s) f = Some b" "map_of b k = Some n"
    by (auto simp: bucket_def split: option.splits)
  show ?thesis
  proof (cases "AList.delete k b = []")
    case True
    then have r: "bucket_remove f k (lru s) = AList.delete f (lru s)"
      using b by (simp add: bucket_remove_def bucket_def)
    show ?thesis
      using assms(1,2) b True
      by (simp add: get_def getitem_default_present pop_def Let_def r AList.delete_update_same
          update_getitem_default [symmetric] split: prod.splits del: AList.delete_simps)
  next
    case False
    then have r: "bucket_remove f k (lru s) = AList.update f (AList.delete k b) (lru s)"
      using b by (simp add: bucket_remove_def bucket_def)
    show ?thesis
      using assms(1,2) b False
      by (simp add: get_def getitem_default_present pop_def Let_def r
          update_getitem_default [symmetric] split: prod.splits del: AList.delete_simps)
  qed
qed

lemma evict_first:
  assumes "frequency s \<noteq> []"
    and "bucket (lru s) (min_list (map snd (frequency s))) = (k0, n0) # b'"
    and "map_of (cache_data s) k0 = Some v" and "map_of (frequency s) k0 = Some f"
  shows "evict s =
    Inr (s\<lparr>cache_data := AList.delete k0 (cache_data s),
           frequency := AList.delete k0 (frequency s),
           lru := bucket_remove (min_list (map snd (frequency s))) k0 (lru s)\<rparr>, [DISCARD k0])"
proof -
  let ?m = "min_list (map snd (frequency s))"
  from assms(2) have b: "map_of (lru s) ?m = Some ((k0, n0) # b')"
    by (auto simp: bucket_def split: option.splits)
  show ?thesis
  proof (cases "AList.delete k0 b' = []")
    case True
    then have r: "bucket_remove ?m k0 (lru s) = AList.delete ?m (lru s)"
      using assms(2) by (simp add: bucket_remove_def)
    show ?thesis
      using assms(1,3,4) b True
      by (simp add: evict_def py_min_def getitem_default_present next_iter_def pop_def Let_def r
          AList.delete_update_same)
  next
    case False
    then have r: "bucket_remove ?m k0 (lru s) = AList.update ?m (AList.delete k0 b') (lru s)"
      using assms(2) by (simp add: bucket_remove_def)
    show ?thesis
      using assms(1,3,4) b False
      by (simp add: evict_def py_min_def getitem_default_present next_iter_def pop_def Let_def r)
  qed
qed

lemma put_absent:
  assumes "map_of (cache_data s) k = None"
  shows "put M (Some k) (Some v) s =
    (case (if M \<le> length (cache_data s) then evict s else Inr (s, [])) of
       Inl e \<Rightarrow> Inl e
     | Inr (s1, out) \<Rightarrow>
         Inr (s1\<lparr>cache_data := AList.update k v (cache_data s1),
                 frequency := AList.update k 1 (frequency s1),
                 lru := bucket_add 1 k (lru_counter s1) (lru s1),
                 lru_counter := lru_counter s1 + 1\<rparr>, out))"
  using assms
  by (simp add: put_def update_getitem_default [symmetric] split: prod.splits sum.splits)

lemma put_present:
  assumes "map_of (cache_data s) k = Some w"
  shows "put M (Some k) (Some v) s =
    (case get (Some k) (s\<lparr>cache_data := AList.update k v (cache_data s)\<rparr>) of
       Inl e \<Rightarrow> Inl e
     | Inr (s', r) \<Rightarrow> Inr (s', []))"
  using assms by (simp add: put_def)

subsection \<open>The updates keep the index consistent\<close>

lemma sorted_stamps_delete:
  "sorted_wrt (<) (map snd b) \<Longrightarrow> sorted_wrt (<) (map snd (AList.delete k (b :: ('k \<times> int) list)))"
  by (simp add: sorted_wrt_map AList.delete_eq sorted_wrt_filter)

lemma set_delete: "set (AList.delete k al) = {p \<in> set al. fst p \<noteq> k}"
  by (auto simp: AList.delete_eq)

lemma index_ok_remove:
  assumes ok: "index_ok F l c" and k: "F k = Some f"
  shows "index_ok (F(k := None)) (bucket_remove f k l) c"
  unfolding index_ok_def
proof (intro conjI allI impI)
  show "distinct (map fst (bucket_remove f k l))"
    using ok by (simp add: index_ok_def distinct_bucket_remove)
next
  fix g b assume "map_of (bucket_remove f k l) g = Some b"
  then show "b \<noteq> []"
    using ok by (auto simp: index_ok_def map_of_bucket_remove split: if_splits)
next
  fix g show "distinct (map fst (bucket (bucket_remove f k l) g))"
    using ok by (simp add: index_ok_def bucket_bucket_remove AList.distinct_delete)
next
  fix g show "sorted_wrt (<) (map snd (bucket (bucket_remove f k l) g))"
    using ok by (simp add: index_ok_def bucket_bucket_remove sorted_stamps_delete)
next
  fix g k' n assume "(k', n) \<in> set (bucket (bucket_remove f k l) g)"
  then have m: "(k', n) \<in> set (bucket l g)" and ne: "g = f \<longrightarrow> k' \<noteq> k"
    by (auto simp: bucket_bucket_remove set_delete split: if_splits)
  from ok m have F: "F k' = Some g" and n: "n < c" by (auto simp: index_ok_def)
  from F k ne have "k' \<noteq> k" by auto
  with F show "(F(k := None)) k' = Some g" by simp
  from n show "n < c" .
next
  fix k' g assume a: "(F(k := None)) k' = Some g"
  then have ne: "k' \<noteq> k" and F: "F k' = Some g" by (auto split: if_splits)
  from ok F show "1 \<le> g" by (auto simp: index_ok_def)
  from ok F have "k' \<in> fst ` set (bucket l g)" by (auto simp: index_ok_def)
  with ne show "k' \<in> fst ` set (bucket (bucket_remove f k l) g)"
    by (auto simp: bucket_bucket_remove set_delete)
qed

lemma index_ok_absent: "index_ok F l c \<Longrightarrow> F k = None \<Longrightarrow> map_of (bucket l f) k = None"
  by (fastforce simp: index_ok_def map_of_eq_None_iff)

lemma index_ok_add:
  assumes ok: "index_ok F l c" and k: "F k = None" and f: "1 \<le> f"
  shows "index_ok (F(k \<mapsto> f)) (bucket_add f k c l) (c + 1)"
proof -
  have upd: "AList.update k c (bucket l f) = bucket l f @ [(k, c)]"
    using index_ok_absent [OF ok k] by (rule update_absent)
  show ?thesis
    unfolding index_ok_def
  proof (intro conjI allI impI)
    show "distinct (map fst (bucket_add f k c l))"
      using ok by (simp add: index_ok_def distinct_bucket_add)
  next
    fix g b assume "map_of (bucket_add f k c l) g = Some b"
    then show "b \<noteq> []"
      using ok by (auto simp: index_ok_def map_of_bucket_add split: if_splits)
  next
    fix g show "distinct (map fst (bucket (bucket_add f k c l) g))"
      using ok by (simp add: index_ok_def bucket_bucket_add AList.distinct_update)
  next
    fix g show "sorted_wrt (<) (map snd (bucket (bucket_add f k c l) g))"
      using ok by (auto simp: index_ok_def bucket_bucket_add upd sorted_wrt_append)
  next
    fix g k' n assume "(k', n) \<in> set (bucket (bucket_add f k c l) g)"
    then consider "g = f" "k' = k" "n = c" | "(k', n) \<in> set (bucket l g)"
      by (auto simp: bucket_bucket_add upd split: if_splits)
    then have "(F(k \<mapsto> f)) k' = Some g \<and> n < c + 1"
    proof cases
      case 1
      then show ?thesis by simp
    next
      case 2
      with ok have F: "F k' = Some g" and n: "n < c" by (auto simp: index_ok_def)
      from F k have "k' \<noteq> k" by auto
      with F n show ?thesis by simp
    qed
    then show "(F(k \<mapsto> f)) k' = Some g" and "n < c + 1" by simp_all
  next
    fix k' g assume a: "(F(k \<mapsto> f)) k' = Some g"
    show "1 \<le> g" using a ok f by (auto simp: index_ok_def split: if_splits)
    show "k' \<in> fst ` set (bucket (bucket_add f k c l) g)"
    proof (cases "k' = k")
      case True
      with a have "g = f" by simp
      with True show ?thesis by (simp add: bucket_bucket_add upd)
    next
      case False
      with a have "F k' = Some g" by simp
      with ok have "k' \<in> fst ` set (bucket l g)" by (auto simp: index_ok_def)
      then show ?thesis by (auto simp: bucket_bucket_add upd)
    qed
  qed
qed

subsection \<open>The calls keep the invariant\<close>

lemma cache_inv_init: "cache_inv init"
  by (simp add: cache_inv_def init_def index_ok_def bucket_def)

lemma map_of_keys: "fst ` set al = fst ` set bl \<Longrightarrow> map_of al k = None \<longleftrightarrow> map_of bl k = None"
  by (simp add: map_of_eq_None_iff)

lemma cache_inv_indexed:
  assumes "cache_inv s" and "map_of (cache_data s) k = Some v"
  shows "\<exists>f n. map_of (frequency s) k = Some f \<and> 1 \<le> f \<and> map_of (bucket (lru s) f) k = Some n"
proof -
  from assms have "map_of (frequency s) k \<noteq> None"
    using map_of_keys [of "cache_data s" "frequency s" k] by (simp add: cache_inv_def)
  then obtain f where f: "map_of (frequency s) k = Some f" by auto
  with assms(1) have "1 \<le> f" and "k \<in> fst ` set (bucket (lru s) f)"
    by (auto simp: cache_inv_def index_ok_def)
  then have "map_of (bucket (lru s) f) k \<noteq> None" by (simp add: map_of_eq_None_iff)
  with f \<open>1 \<le> f\<close> show ?thesis by auto
qed

lemma get_absent: "map_of (cache_data s) k = None \<Longrightarrow> get (Some k) s = Inr (s, None)"
  by (simp add: get_def)

lemma get_promote:
  assumes "cache_inv s" and "map_of (cache_data s) k = Some v" and "map_of (frequency s) k = Some f"
  shows "get (Some k) s = Inr (promote k f s, Some v)"
proof -
  from cache_inv_indexed [OF assms(1,2)] assms(3)
  obtain n where "map_of (bucket (lru s) f) k = Some n" by auto
  with assms(2,3) show ?thesis unfolding promote_def by (rule get_present)
qed

lemma cache_inv_promote:
  assumes "cache_inv s" and "map_of (frequency s) k = Some f"
  shows "cache_inv (promote k f s)"
proof -
  from assms(1) have ok: "index_ok (map_of (frequency s)) (lru s) (lru_counter s)"
    by (simp add: cache_inv_def)
  from ok assms(2) have "1 \<le> f" by (auto simp: index_ok_def)
  then have f1: "1 \<le> f + 1" by simp
  have "index_ok (((map_of (frequency s))(k := None))(k \<mapsto> f + 1))
          (bucket_add (f + 1) k (lru_counter s) (bucket_remove f k (lru s))) (lru_counter s + 1)"
    by (rule index_ok_add [OF index_ok_remove [OF ok assms(2)] _ f1]) simp
  then have "index_ok (map_of (AList.update k (f + 1) (frequency s)))
          (bucket_add (f + 1) k (lru_counter s) (bucket_remove f k (lru s))) (lru_counter s + 1)"
    by (simp add: AList.update_conv')
  moreover have "k \<in> fst ` set (frequency s)"
    using assms(2) by (metis map_of_eq_None_iff option.distinct(1))
  ultimately show ?thesis
    using assms(1)
    by (auto simp: cache_inv_def promote_def AList.distinct_update AList.dom_update)
qed

lemma cache_inv_discard:
  assumes "cache_inv s" and "map_of (frequency s) k = Some f"
  shows "cache_inv (discard k f s)"
proof -
  from assms(1) have ok: "index_ok (map_of (frequency s)) (lru s) (lru_counter s)"
    by (simp add: cache_inv_def)
  have "index_ok (map_of (AList.delete k (frequency s))) (bucket_remove f k (lru s)) (lru_counter s)"
    using index_ok_remove [OF ok assms(2)] by (simp add: AList.delete_conv')
  moreover have "fst ` set (AList.delete k (cache_data s)) = fst ` set (AList.delete k (frequency s))"
    using assms(1) by (auto simp: cache_inv_def set_delete image_iff)
  ultimately show ?thesis
    using assms(1) by (simp add: cache_inv_def discard_def AList.distinct_delete)
qed

lemma cache_inv_insert_new:
  assumes "cache_inv s" and "map_of (cache_data s) k = None"
  shows "cache_inv (insert_new k v s)"
proof -
  from assms(1) have ok: "index_ok (map_of (frequency s)) (lru s) (lru_counter s)"
    by (simp add: cache_inv_def)
  from assms have F: "map_of (frequency s) k = None"
    using map_of_keys [of "cache_data s" "frequency s" k] by (simp add: cache_inv_def)
  have "index_ok (map_of (AList.update k 1 (frequency s))) (bucket_add 1 k (lru_counter s) (lru s))
          (lru_counter s + 1)"
    using index_ok_add [OF ok F, of 1] by (simp add: AList.update_conv')
  then show ?thesis
    using assms(1)
    by (simp add: cache_inv_def insert_new_def AList.distinct_update AList.dom_update)
qed

lemma min_list_least: "x \<in> set xs \<Longrightarrow> min_list xs \<le> (x :: int)"
  by (cases "xs = []") (simp_all add: min_list_Min)

lemma min_list_mem: "xs \<noteq> [] \<Longrightarrow> min_list xs \<in> set (xs :: int list)"
  by (simp add: min_list_Min)

lemma evict_discard:
  assumes "cache_inv s" and "cache_data s \<noteq> []"
  shows "\<exists>k0 n0 b'. bucket (lru s) (min_list (map snd (frequency s))) = (k0, n0) # b' \<and>
           map_of (frequency s) k0 = Some (min_list (map snd (frequency s))) \<and>
           map_of (cache_data s) k0 \<noteq> None \<and>
           evict s = Inr (discard k0 (min_list (map snd (frequency s))) s, [DISCARD k0])"
proof -
  let ?m = "min_list (map snd (frequency s))"
  from assms have ne: "frequency s \<noteq> []" by (auto simp: cache_inv_def)
  then have "?m \<in> set (map snd (frequency s))" by (intro min_list_mem) simp
  then obtain k1 where "(k1, ?m) \<in> set (frequency s)" by auto
  with assms(1) have "map_of (frequency s) k1 = Some ?m" by (simp add: cache_inv_def)
  with assms(1) have "k1 \<in> fst ` set (bucket (lru s) ?m)" by (auto simp: cache_inv_def index_ok_def)
  then obtain k0 n0 b' where b: "bucket (lru s) ?m = (k0, n0) # b'"
    by (cases "bucket (lru s) ?m") auto
  then have "(k0, n0) \<in> set (bucket (lru s) ?m)" by simp
  with assms(1) have F: "map_of (frequency s) k0 = Some ?m" by (auto simp: cache_inv_def index_ok_def)
  then have "map_of (cache_data s) k0 \<noteq> None"
    using assms(1) map_of_keys [of "cache_data s" "frequency s" k0] by (simp add: cache_inv_def)
  then obtain v where D: "map_of (cache_data s) k0 = Some v" by auto
  have "evict s = Inr (discard k0 ?m s, [DISCARD k0])"
    unfolding discard_def by (rule evict_first [OF ne b D F])
  with b F D show ?thesis by auto
qed

lemma cache_inv_overwrite:
  assumes "cache_inv s" and "map_of (cache_data s) k = Some w"
  shows "cache_inv (s\<lparr>cache_data := AList.update k v (cache_data s)\<rparr>)"
proof -
  from assms(2) have "k \<in> fst ` set (cache_data s)"
    by (metis map_of_eq_None_iff option.distinct(1))
  with assms(1) show ?thesis
    by (auto simp: cache_inv_def AList.distinct_update AList.dom_update)
qed

lemma put_overwrite:
  assumes "cache_inv s" and "map_of (cache_data s) k = Some w" and "map_of (frequency s) k = Some f"
  shows "put M (Some k) (Some v) s =
           Inr (promote k f (s\<lparr>cache_data := AList.update k v (cache_data s)\<rparr>), [])"
proof -
  let ?s1 = "s\<lparr>cache_data := AList.update k v (cache_data s)\<rparr>"
  have "get (Some k) ?s1 = Inr (promote k f ?s1, Some v)"
    by (rule get_promote [OF cache_inv_overwrite [OF assms(1,2)]])
      (simp_all add: assms(3) AList.update_conv')
  then show ?thesis by (simp add: put_present [OF assms(2)])
qed

lemma put_room:
  assumes "map_of (cache_data s) k = None" and "length (cache_data s) < M"
  shows "put M (Some k) (Some v) s = Inr (insert_new k v s, [])"
  using assms(2) by (simp add: put_absent [OF assms(1)] insert_new_def)

lemma put_full:
  assumes "cache_inv s" and "map_of (cache_data s) k = None" and "M \<le> length (cache_data s)"
    and "cache_data s \<noteq> []"
  shows "\<exists>k0 n0 b'. bucket (lru s) (min_list (map snd (frequency s))) = (k0, n0) # b' \<and>
           map_of (frequency s) k0 = Some (min_list (map snd (frequency s))) \<and>
           map_of (cache_data s) k0 \<noteq> None \<and>
           put M (Some k) (Some v) s =
             Inr (insert_new k v (discard k0 (min_list (map snd (frequency s))) s), [DISCARD k0])"
proof -
  from evict_discard [OF assms(1,4)] obtain k0 n0 b' where
    e: "bucket (lru s) (min_list (map snd (frequency s))) = (k0, n0) # b'"
       "map_of (frequency s) k0 = Some (min_list (map snd (frequency s)))"
       "map_of (cache_data s) k0 \<noteq> None"
       "evict s = Inr (discard k0 (min_list (map snd (frequency s))) s, [DISCARD k0])"
    by blast
  have "put M (Some k) (Some v) s =
      Inr (insert_new k v (discard k0 (min_list (map snd (frequency s))) s), [DISCARD k0])"
    using assms(3) e(4) by (simp add: put_absent [OF assms(2)] insert_new_def)
  with e(1,2,3) show ?thesis by blast
qed

lemma put_empty_full:
  assumes "cache_inv s" and "M \<le> length (cache_data s)" and "cache_data s = []"
  shows "put M (Some k) (Some v) s = Inl ValueError"
proof -
  from assms(1,3) have "frequency s = []" by (simp add: cache_inv_def)
  then have "evict s = Inl ValueError" by (simp add: evict_def py_min_def)
  with assms(2,3) show ?thesis by (simp add: put_absent)
qed

lemma length_insert_new:
  "map_of (cache_data s) k = None \<Longrightarrow> length (cache_data (insert_new k v s)) = Suc (length (cache_data s))"
  by (simp add: insert_new_def update_absent)

lemma length_discard:
  "cache_inv s \<Longrightarrow> map_of (cache_data s) k \<noteq> None \<Longrightarrow>
     Suc (length (cache_data (discard k f s))) = length (cache_data s)"
  by (auto simp: discard_def cache_inv_def intro: length_delete_present)

lemma map_of_discard: "map_of (cache_data (discard k0 f s)) k = (if k = k0 then None else map_of (cache_data s) k)"
  by (simp add: discard_def AList.delete_conv')

lemma get_lfu_inv:
  assumes "lfu_inv M s" and "get key s = Inr (s', r)"
  shows "lfu_inv M s'"
proof (cases key)
  case None
  with assms show ?thesis by (simp add: get_def)
next
  case (Some k)
  show ?thesis
  proof (cases "map_of (cache_data s) k")
    case None
    with assms Some show ?thesis by (simp add: get_absent)
  next
    case (Some v)
    from assms(1) have ci: "cache_inv s" by (simp add: lfu_inv_def)
    from cache_inv_indexed [OF ci Some] obtain f where f: "map_of (frequency s) k = Some f" by blast
    from assms(2) \<open>key = Some k\<close> have "s' = promote k f s"
      by (simp add: get_promote [OF ci Some f])
    with cache_inv_promote [OF ci f] assms(1) show ?thesis
      by (simp add: lfu_inv_def promote_def)
  qed
qed

lemma put_lfu_inv:
  assumes "lfu_inv M s" and "put M key item s = Inr (s', out)"
  shows "lfu_inv M s'"
proof -
  from assms(1) have ci: "cache_inv s" and len: "length (cache_data s) \<le> M"
    by (simp_all add: lfu_inv_def)
  show ?thesis
  proof (cases key)
    case None
    with assms show ?thesis by (simp add: put_def)
  next
    case k: (Some k)
    show ?thesis
    proof (cases item)
      case None
      with assms k show ?thesis by (simp add: put_def)
    next
      case v: (Some v)
      show ?thesis
      proof (cases "map_of (cache_data s) k")
        case (Some w)
        from cache_inv_indexed [OF ci Some] obtain f where f: "map_of (frequency s) k = Some f"
          by blast
        let ?s1 = "s\<lparr>cache_data := AList.update k v (cache_data s)\<rparr>"
        from assms(2) k v have s': "s' = promote k f ?s1"
          by (simp add: put_overwrite [OF ci Some f])
        have "cache_inv (promote k f ?s1)"
          by (rule cache_inv_promote [OF cache_inv_overwrite [OF ci Some]]) (simp add: f)
        moreover have "length (cache_data (promote k f ?s1)) = length (cache_data s)"
          by (simp add: promote_def length_update_present [OF Some])
        ultimately show ?thesis using len s' by (simp add: lfu_inv_def)
      next
        case None
        show ?thesis
        proof (cases "length (cache_data s) < M")
          case True
          with assms(2) k v have "s' = insert_new k v s" by (simp add: put_room [OF None])
          with cache_inv_insert_new [OF ci None] length_insert_new [OF None, of v] True
          show ?thesis by (simp add: lfu_inv_def)
        next
          case False
          then have full: "M \<le> length (cache_data s)" by simp
          show ?thesis
          proof (cases "cache_data s = []")
            case True
            with assms(2) k v put_empty_full [OF ci full] show ?thesis by simp
          next
            case ne: False
            let ?m = "min_list (map snd (frequency s))"
            from put_full [OF ci None full ne, of v] assms(2) k v obtain k0 where
              k0: "map_of (frequency s) k0 = Some ?m" "map_of (cache_data s) k0 \<noteq> None"
              and s': "s' = insert_new k v (discard k0 ?m s)"
              by auto
            have ci1: "cache_inv (discard k0 ?m s)" by (rule cache_inv_discard [OF ci k0(1)])
            have abs: "map_of (cache_data (discard k0 ?m s)) k = None"
              using None by (simp add: map_of_discard)
            have "length (cache_data s') = length (cache_data s)"
              using length_discard [OF ci k0(2), of ?m] length_insert_new [OF abs, of v] s'
              by simp
            with cache_inv_insert_new [OF ci1 abs, of v] s' len show ?thesis
              by (simp add: lfu_inv_def)
          qed
        qed
      qed
    qed
  qed
qed

lemma exec_lfu_inv: "lfu_inv M s \<Longrightarrow> exec M c s = Inr s' \<Longrightarrow> lfu_inv M s'"
  by (cases c) (auto split: sum.splits dest: put_lfu_inv get_lfu_inv)

lemma run_lfu_inv: "lfu_inv M s \<Longrightarrow> run M cs s = Inr s' \<Longrightarrow> lfu_inv M s'"
proof (induction cs arbitrary: s)
  case Nil
  then show ?case by simp
next
  case (Cons c cs)
  then show ?case by (auto split: sum.splits dest: exec_lfu_inv)
qed

lemma lfu_inv_init: "lfu_inv M init"
  using cache_inv_init by (simp add: lfu_inv_def init_def)

lemma reachable_lfu_inv: "run M cs init = Inr s \<Longrightarrow> lfu_inv M s"
  using lfu_inv_init by (rule run_lfu_inv)

subsection \<open>The example runs\<close>

lemma example_run: "run 2 example_calls init = Inr example_state"
  by (simp add: example_calls_def example_state_def init_def put_def get_def getitem_default_def
      pop_def)

lemma tie_run: "run 2 tie_calls init = Inr tie_state"
  by (simp add: tie_calls_def tie_state_def init_def put_def get_def getitem_default_def
      pop_def)

lemma example_put:
  "put 2 (Some ''C'') (Some 3) example_state =
     Inr (\<lparr>cache_data = [(''A'', 1), (''C'', 3)], frequency = [(''A'', 2), (''C'', 1)],
           lru = [(2, [(''A'', 2)]), (1, [(''C'', 3)])], lru_counter = 4\<rparr>, [DISCARD ''B''])"
  by (simp add: example_state_def put_def evict_def py_min_def next_iter_def getitem_default_def
      pop_def)

lemma example_get:
  "get (Some ''A'') example_state =
     Inr (\<lparr>cache_data = [(''A'', 1), (''B'', 2)], frequency = [(''A'', 3), (''B'', 1)],
           lru = [(1, [(''B'', 1)]), (3, [(''A'', 3)])], lru_counter = 4\<rparr>, Some 1)"
  by (simp add: example_state_def get_def getitem_default_def pop_def)

subsection \<open>Reading the states after a change\<close>

lemma map_of_promote_frequency:
  "map_of (frequency (promote k f s)) k' = (if k' = k then Some (f + 1) else map_of (frequency s) k')"
  by (simp add: promote_def AList.update_conv')

lemma map_of_insert_new_frequency:
  "map_of (frequency (insert_new k v s)) k' = (if k' = k then Some 1 else map_of (frequency s) k')"
  by (simp add: insert_new_def AList.update_conv')

lemma map_of_discard_frequency:
  "map_of (frequency (discard k0 f s)) k = (if k = k0 then None else map_of (frequency s) k)"
  by (simp add: discard_def AList.delete_conv')

lemma map_of_insert_new:
  "map_of (cache_data (insert_new k v s)) k' = (if k' = k then Some v else map_of (cache_data s) k')"
  by (simp add: insert_new_def AList.update_conv')

lemma cache_data_promote: "cache_data (promote k f s) = cache_data s"
  by (simp add: promote_def)

subsection \<open>The claims\<close>

text \<open>
  Claim C6. For every cache state and every value, \<^verbatim>\<open>put(None, v)\<close>, \<^verbatim>\<open>put(k, None)\<close> and
  \<^verbatim>\<open>get(None)\<close> do not raise and return the state as it was: the value store, the
  frequency map, the buckets and the sequence counter are unchanged, nothing is printed, and
  \<^verbatim>\<open>get(None)\<close> returns \<^verbatim>\<open>None\<close>, the "not found" result.
\<close>

theorem null_arguments_are_ignored:
  "put MAX_ITEMS None item s = Inr (s, []) \<and> put MAX_ITEMS key None s = Inr (s, []) \<and>
   get None s = Inr (s, None)"
  by (simp add: put_def get_def split: option.splits)

theorem null_arguments_are_ignored_witness:
  "put 2 None (Some 7) example_state = Inr (example_state, []) \<and>
   put 2 (Some ''A'') None example_state = Inr (example_state, []) \<and>
   get None example_state = Inr (example_state, None)"
  using null_arguments_are_ignored [of 2 "Some 7" example_state "Some ''A''"] by simp

text \<open>
  Claim C2. After every sequence of \<^verbatim>\<open>put\<close> and \<^verbatim>\<open>get\<close> calls on a new cache, the value
  store holds at most \<open>MAX_ITEMS\<close> distinct keys (and as many entries).
\<close>

theorem capacity_never_exceeded:
  assumes "run MAX_ITEMS cs init = Inr s"
  shows "card (fst ` set (cache_data s)) \<le> MAX_ITEMS \<and> length (cache_data s) \<le> MAX_ITEMS"
proof -
  from reachable_lfu_inv [OF assms] have len: "length (cache_data s) \<le> MAX_ITEMS"
    by (simp add: lfu_inv_def)
  have "card (set (map fst (cache_data s))) \<le> length (map fst (cache_data s))"
    by (rule card_length)
  with len show ?thesis by simp
qed

theorem capacity_never_exceeded_witness:
  "run 2 example_calls init = Inr example_state \<and>
   card (fst ` set (cache_data example_state)) \<le> 2 \<and> length (cache_data example_state) \<le> 2"
  using capacity_never_exceeded [OF example_run] example_run by simp

text \<open>In a bucket every key other than the first has a larger stamp than the first.\<close>

lemma bucket_head_oldest:
  assumes ok: "index_ok F l c" and b: "bucket l f = (e, ne) # b'" and k': "F k' = Some f" "k' \<noteq> e"
  shows "\<exists>n'. map_of (bucket l f) k' = Some n' \<and> ne < n'"
proof -
  from ok k' have "k' \<in> fst ` set (bucket l f)" by (auto simp: index_ok_def)
  with b k'(2) obtain n' where n': "(k', n') \<in> set b'" by auto
  from ok have "sorted_wrt (<) (map snd (bucket l f))" and d: "distinct (map fst (bucket l f))"
    by (auto simp: index_ok_def)
  with b n' have "ne < n'" by (auto simp: b)
  moreover from d n' b k'(2) have "map_of (bucket l f) k' = Some n'" by simp
  ultimately show ?thesis by blast
qed

text \<open>
  Claim C1. When \<^verbatim>\<open>put\<close> is called with a new key on a reachable cache that holds
  \<open>MAX_ITEMS\<close> keys (\<open>MAX_ITEMS\<close> positive), exactly one key \<open>e\<close> leaves the store; its
  frequency is the least frequency of all keys in the store, and every other key of that
  frequency has a larger sequence stamp in the bucket of that frequency.
\<close>

theorem put_evicts_least_frequent_oldest:
  assumes "run MAX_ITEMS cs init = Inr s" and "0 < MAX_ITEMS"
    and "map_of (cache_data s) k = None" and "length (cache_data s) = MAX_ITEMS"
  shows "\<exists>s' e fe ne.
     put MAX_ITEMS (Some k) (Some v) s = Inr (s', [DISCARD e]) \<and>
     map_of (cache_data s) e \<noteq> None \<and>
     (\<forall>k'. map_of (cache_data s') k' =
        (if k' = k then Some v else if k' = e then None else map_of (cache_data s) k')) \<and>
     map_of (frequency s) e = Some fe \<and>
     (\<forall>k' f'. map_of (frequency s) k' = Some f' \<longrightarrow> fe \<le> f') \<and>
     map_of (bucket (lru s) fe) e = Some ne \<and>
     (\<forall>k'. k' \<noteq> e \<longrightarrow> map_of (frequency s) k' = Some fe \<longrightarrow>
        (\<exists>n'. map_of (bucket (lru s) fe) k' = Some n' \<and> ne < n'))"
proof -
  let ?m = "min_list (map snd (frequency s))"
  from reachable_lfu_inv [OF assms(1)] have ci: "cache_inv s" by (simp add: lfu_inv_def)
  then have ok: "index_ok (map_of (frequency s)) (lru s) (lru_counter s)"
    by (simp add: cache_inv_def)
  from assms(2,4) have ne: "cache_data s \<noteq> []" and full: "MAX_ITEMS \<le> length (cache_data s)"
    by auto
  from put_full [OF ci assms(3) full ne, of v] obtain e ne b' where
    b: "bucket (lru s) ?m = (e, ne) # b'" and fe: "map_of (frequency s) e = Some ?m"
    and de: "map_of (cache_data s) e \<noteq> None"
    and p: "put MAX_ITEMS (Some k) (Some v) s = Inr (insert_new k v (discard e ?m s), [DISCARD e])"
    by blast
  have store: "\<forall>k'. map_of (cache_data (insert_new k v (discard e ?m s))) k' =
        (if k' = k then Some v else if k' = e then None else map_of (cache_data s) k')"
    by (simp add: map_of_insert_new map_of_discard)
  have least: "\<forall>k' f'. map_of (frequency s) k' = Some f' \<longrightarrow> ?m \<le> f'"
  proof (intro allI impI)
    fix k' f' assume "map_of (frequency s) k' = Some f'"
    then have "(k', f') \<in> set (frequency s)" by (rule map_of_SomeD)
    then have "f' \<in> set (map snd (frequency s))" by force
    then show "?m \<le> f'" by (rule min_list_least)
  qed
  have stamp: "map_of (bucket (lru s) ?m) e = Some ne" by (simp add: b)
  have oldest: "\<forall>k'. k' \<noteq> e \<longrightarrow> map_of (frequency s) k' = Some ?m \<longrightarrow>
        (\<exists>n'. map_of (bucket (lru s) ?m) k' = Some n' \<and> ne < n')"
    using bucket_head_oldest [OF ok b] by blast
  from p de store fe least stamp oldest show ?thesis by blast
qed

theorem put_evicts_least_frequent_oldest_witness:
  "run 2 tie_calls init = Inr tie_state \<and> (0::nat) < 2 \<and>
   map_of (cache_data tie_state) ''C'' = None \<and> length (cache_data tie_state) = 2 \<and>
   (\<exists>s'. put 2 (Some ''C'') (Some 3) tie_state = Inr (s', [DISCARD ''B'']))"
proof -
  have h2: "(0::nat) < 2" by simp
  have h3: "map_of (cache_data tie_state) ''C'' = None" by (simp add: tie_state_def)
  have h4: "length (cache_data tie_state) = 2" by (simp add: tie_state_def)
  from put_evicts_least_frequent_oldest [OF tie_run h2 h3 h4, of 3]
  obtain s' e fe ne where p: "put 2 (Some ''C'') (Some 3) tie_state = Inr (s', [DISCARD e])"
    and fe: "map_of (frequency tie_state) e = Some fe"
    and old: "\<forall>k'. k' \<noteq> e \<longrightarrow> map_of (frequency tie_state) k' = Some fe \<longrightarrow>
        (\<exists>n'. map_of (bucket (lru tie_state) fe) k' = Some n' \<and> ne < n')"
    and ne: "map_of (bucket (lru tie_state) fe) e = Some ne"
    by blast
  from fe have "e = ''A'' \<or> e = ''B''" and "fe = 2"
    by (auto simp: tie_state_def split: if_splits)
  moreover have "e \<noteq> ''A''"
  proof
    assume a: "e = ''A''"
    with ne \<open>fe = 2\<close> have "ne = 3" by (simp add: tie_state_def bucket_def)
    with old [rule_format, of "''B''"] a \<open>fe = 2\<close> show False
      by (simp add: tie_state_def bucket_def)
  qed
  ultimately have "e = ''B''" by simp
  with p tie_run h2 h3 h4 show ?thesis by blast
qed

text \<open>What \<^verbatim>\<open>get\<close> does to the index of a reachable cache.\<close>

lemma reachable_cache_inv: "run M cs init = Inr s \<Longrightarrow> cache_inv s"
  using reachable_lfu_inv [of M cs s] by (simp add: lfu_inv_def)

lemma stamps_below_counter:
  "cache_inv s \<Longrightarrow> (k, n) \<in> set (bucket (lru s) g) \<Longrightarrow> n < lru_counter s"
  by (auto simp: cache_inv_def index_ok_def)

lemma bucket_member_frequency:
  "cache_inv s \<Longrightarrow> (k, n) \<in> set (bucket (lru s) g) \<Longrightarrow> map_of (frequency s) k = Some g"
  by (auto simp: cache_inv_def index_ok_def)

lemma map_of_lru_promote_old:
  "map_of (lru (promote k f s)) f =
     (if AList.delete k (bucket (lru s) f) = [] then None
      else Some (AList.delete k (bucket (lru s) f)))"
  by (simp add: promote_def map_of_bucket_add map_of_bucket_remove)

lemma map_of_lru_promote_new:
  assumes "cache_inv s" and "map_of (frequency s) k = Some f"
  shows "map_of (lru (promote k f s)) (f + 1) = Some (bucket (lru s) (f + 1) @ [(k, lru_counter s)])"
proof -
  have "map_of (bucket (lru s) (f + 1)) k = None"
  proof (rule ccontr)
    assume "map_of (bucket (lru s) (f + 1)) k \<noteq> None"
    then obtain n where "(k, n) \<in> set (bucket (lru s) (f + 1))" by (auto dest: map_of_SomeD)
    from bucket_member_frequency [OF assms(1) this] assms(2) show False by simp
  qed
  then have "AList.update k (lru_counter s) (bucket (lru s) (f + 1)) =
      bucket (lru s) (f + 1) @ [(k, lru_counter s)]"
    by (rule update_absent)
  then show ?thesis
    by (simp add: promote_def map_of_bucket_add bucket_bucket_remove)
qed

text \<open>
  Claim C3. On a reachable cache, \<^verbatim>\<open>get(None)\<close> and \<^verbatim>\<open>get(k)\<close> for a key that is not
  stored return \<^verbatim>\<open>None\<close> and leave the state as it was. For a stored key \<open>k\<close> with value
  \<open>v\<close> and frequency \<open>f\<close>, \<^verbatim>\<open>get(k)\<close> returns \<open>v\<close>; \<open>k\<close> was in the bucket of \<open>f\<close> and is
  taken out of it, the bucket leaving the index when nothing else is in it; the frequency
  of \<open>k\<close> becomes \<open>f + 1\<close>; the bucket of \<open>f + 1\<close> is what it was followed by \<open>k\<close>, stamped
  with the old counter, which is larger than every stamp in the index; the counter grows
  by one and the value store is unchanged.
\<close>

theorem get_returns_value_and_promotes:
  assumes "run MAX_ITEMS cs init = Inr s"
  shows "get None s = Inr (s, None) \<and>
    (map_of (cache_data s) k = None \<longrightarrow> get (Some k) s = Inr (s, None)) \<and>
    (\<forall>v. map_of (cache_data s) k = Some v \<longrightarrow>
       (\<exists>s' f. get (Some k) s = Inr (s', Some v) \<and>
          map_of (frequency s) k = Some f \<and> k \<in> fst ` set (bucket (lru s) f) \<and>
          map_of (lru s') f =
            (if AList.delete k (bucket (lru s) f) = [] then None
             else Some (AList.delete k (bucket (lru s) f))) \<and>
          map_of (frequency s') k = Some (f + 1) \<and>
          map_of (lru s') (f + 1) = Some (bucket (lru s) (f + 1) @ [(k, lru_counter s)]) \<and>
          (\<forall>g k' n'. (k', n') \<in> set (bucket (lru s) g) \<longrightarrow> n' < lru_counter s) \<and>
          lru_counter s' = lru_counter s + 1 \<and> cache_data s' = cache_data s))"
proof (intro conjI impI allI)
  show "get None s = Inr (s, None)" by (simp add: get_def)
next
  assume "map_of (cache_data s) k = None"
  then show "get (Some k) s = Inr (s, None)" by (rule get_absent)
next
  fix v assume v: "map_of (cache_data s) k = Some v"
  from assms have ci: "cache_inv s" by (rule reachable_cache_inv)
  from cache_inv_indexed [OF ci v] obtain f n where
    f: "map_of (frequency s) k = Some f" and n: "map_of (bucket (lru s) f) k = Some n"
    by blast
  from n have mem: "k \<in> fst ` set (bucket (lru s) f)"
    by (metis map_of_eq_None_iff option.distinct(1))
  have g: "get (Some k) s = Inr (promote k f s, Some v)" by (rule get_promote [OF ci v f])
  have fresh: "\<forall>g k' n'. (k', n') \<in> set (bucket (lru s) g) \<longrightarrow> n' < lru_counter s"
    using stamps_below_counter [OF ci] by blast
  have "lru_counter (promote k f s) = lru_counter s + 1"
    and "cache_data (promote k f s) = cache_data s"
    by (simp_all add: promote_def)
  with g f mem fresh map_of_lru_promote_old [of k f s] map_of_lru_promote_new [OF ci f]
    map_of_promote_frequency [of k f s k]
  show "\<exists>s' f. get (Some k) s = Inr (s', Some v) \<and>
          map_of (frequency s) k = Some f \<and> k \<in> fst ` set (bucket (lru s) f) \<and>
          map_of (lru s') f =
            (if AList.delete k (bucket (lru s) f) = [] then None
             else Some (AList.delete k (bucket (lru s) f))) \<and>
          map_of (frequency s') k = Some (f + 1) \<and>
          map_of (lru s') (f + 1) = Some (bucket (lru s) (f + 1) @ [(k, lru_counter s)]) \<and>
          (\<forall>g k' n'. (k', n') \<in> set (bucket (lru s) g) \<longrightarrow> n' < lru_counter s) \<and>
          lru_counter s' = lru_counter s + 1 \<and> cache_data s' = cache_data s"
    by (intro exI [of _ "promote k f s"] exI [of _ f]) simp
qed

theorem get_returns_value_and_promotes_witness:
  "run 2 example_calls init = Inr example_state \<and>
   map_of (cache_data example_state) ''Z'' = None \<and>
   get (Some ''Z'') example_state = Inr (example_state, None) \<and>
   map_of (cache_data example_state) ''B'' = Some 2 \<and>
   (\<exists>s'. get (Some ''B'') example_state = Inr (s', Some 2) \<and>
         map_of (lru s') 1 = None \<and> map_of (frequency s') ''B'' = Some 2 \<and>
         map_of (lru s') 2 = Some [(''A'', 2), (''B'', 3)] \<and> lru_counter s' = 4)"
proof -
  have z: "map_of (cache_data example_state) ''Z'' = None" by (simp add: example_state_def)
  have b: "map_of (cache_data example_state) ''B'' = Some 2" by (simp add: example_state_def)
  from get_returns_value_and_promotes [OF example_run, of "''Z''"] z
  have gz: "get (Some ''Z'') example_state = Inr (example_state, None)" by blast
  from get_returns_value_and_promotes [OF example_run, of "''B''"] b
  obtain s' f where g: "get (Some ''B'') example_state = Inr (s', Some 2)"
    and f: "map_of (frequency example_state) ''B'' = Some f"
    and old: "map_of (lru s') f =
            (if AList.delete ''B'' (bucket (lru example_state) f) = [] then None
             else Some (AList.delete ''B'' (bucket (lru example_state) f)))"
    and new: "map_of (frequency s') ''B'' = Some (f + 1)"
      "map_of (lru s') (f + 1) = Some (bucket (lru example_state) (f + 1) @ [(''B'', lru_counter example_state)])"
      "lru_counter s' = lru_counter example_state + 1"
    by blast
  from f have "f = 1" by (simp add: example_state_def)
  with old new have "map_of (lru s') 1 = None" "map_of (frequency s') ''B'' = Some 2"
    "map_of (lru s') 2 = Some [(''A'', 2), (''B'', 3)]" "lru_counter s' = 4"
    by (simp_all add: example_state_def bucket_def)
  with g gz z b example_run show ?thesis by blast
qed

text \<open>
  Claim C10. For a key \<open>k\<close> stored in a reachable cache, \<^verbatim>\<open>get(k)\<close> leaves the value store
  as it is (keys, values and order), keeps the keys of the frequency map and the frequency
  of every other key, and every bucket with \<open>k\<close> taken out is the same before and after:
  the other keys stay in their buckets, with their stamps and in their order.
\<close>

theorem get_changes_only_its_key:
  assumes "run MAX_ITEMS cs init = Inr s" and "map_of (cache_data s) k = Some v"
  shows "\<exists>s'. get (Some k) s = Inr (s', Some v) \<and> cache_data s' = cache_data s \<and>
           map fst (frequency s') = map fst (frequency s) \<and>
           (\<forall>k'. k' \<noteq> k \<longrightarrow> map_of (frequency s') k' = map_of (frequency s) k') \<and>
           (\<forall>g. AList.delete k (bucket (lru s') g) = AList.delete k (bucket (lru s) g))"
proof -
  from assms(1) have ci: "cache_inv s" by (rule reachable_cache_inv)
  from cache_inv_indexed [OF ci assms(2)] obtain f where f: "map_of (frequency s) k = Some f"
    by blast
  then have "k \<in> set (map fst (frequency s))"
    by (metis map_of_eq_None_iff option.distinct(1) set_map)
  then have keys: "map fst (frequency (promote k f s)) = map fst (frequency s)"
    by (simp add: promote_def AList.update_keys)
  have buckets: "\<forall>g. AList.delete k (bucket (lru (promote k f s)) g) = AList.delete k (bucket (lru s) g)"
    by (simp add: promote_def bucket_bucket_add bucket_bucket_remove AList.delete_update_same
        AList.delete_idem)
  from get_promote [OF ci assms(2) f] keys buckets show ?thesis
    by (simp add: map_of_promote_frequency cache_data_promote)
qed

theorem get_changes_only_its_key_witness:
  "run 2 example_calls init = Inr example_state \<and>
   map_of (cache_data example_state) ''A'' = Some 1 \<and>
   (\<exists>s'. get (Some ''A'') example_state = Inr (s', Some 1) \<and>
         cache_data s' = [(''A'', 1), (''B'', 2)] \<and> map_of (frequency s') ''B'' = Some 1 \<and>
         AList.delete ''A'' (bucket (lru s') 1) = [(''B'', 1)])"
proof -
  have a: "map_of (cache_data example_state) ''A'' = Some 1" by (simp add: example_state_def)
  from get_changes_only_its_key [OF example_run a]
  obtain s' where g: "get (Some ''A'') example_state = Inr (s', Some 1)"
    and c: "cache_data s' = cache_data example_state"
    and fr: "\<forall>k'. k' \<noteq> ''A'' \<longrightarrow> map_of (frequency s') k' = map_of (frequency example_state) k'"
    and bu: "\<forall>g. AList.delete ''A'' (bucket (lru s') g) = AList.delete ''A'' (bucket (lru example_state) g)"
    by blast
  from c have "cache_data s' = [(''A'', 1), (''B'', 2)]" by (simp add: example_state_def)
  moreover from fr [rule_format, of "''B''"] have "map_of (frequency s') ''B'' = Some 1"
    by (simp add: example_state_def)
  moreover from bu [rule_format, of 1] have "AList.delete ''A'' (bucket (lru s') 1) = [(''B'', 1)]"
    by (simp add: example_state_def bucket_def)
  ultimately show ?thesis using g a example_run by blast
qed

text \<open>
  Claim C4. For a key \<open>k\<close> stored in a reachable cache and an item \<open>v\<close> that is not
  \<^verbatim>\<open>None\<close>, \<^verbatim>\<open>put(k, v)\<close> prints nothing, stores \<open>v\<close> under \<open>k\<close> in place, so that the keys of
  the store are the same list as before (none evicted, none added, whatever the size of
  the store), raises the frequency of \<open>k\<close> by one, and leaves the frequency map, the index
  and the counter exactly as \<^verbatim>\<open>get(k)\<close> on the state before would.
\<close>

theorem put_existing_overwrites_and_promotes:
  assumes "run MAX_ITEMS cs init = Inr s" and "map_of (cache_data s) k = Some w"
  shows "\<exists>s' s1 f. put MAX_ITEMS (Some k) (Some v) s = Inr (s', []) \<and>
           cache_data s' = AList.update k v (cache_data s) \<and>
           map_of (cache_data s') k = Some v \<and>
           map fst (cache_data s') = map fst (cache_data s) \<and>
           map_of (frequency s) k = Some f \<and> map_of (frequency s') k = Some (f + 1) \<and>
           get (Some k) s = Inr (s1, Some w) \<and>
           frequency s' = frequency s1 \<and> lru s' = lru s1 \<and> lru_counter s' = lru_counter s1"
proof -
  let ?s1 = "s\<lparr>cache_data := AList.update k v (cache_data s)\<rparr>"
  from assms(1) have ci: "cache_inv s" by (rule reachable_cache_inv)
  from cache_inv_indexed [OF ci assms(2)] obtain f where f: "map_of (frequency s) k = Some f"
    by blast
  from assms(2) have "k \<in> set (map fst (cache_data s))"
    by (metis map_of_eq_None_iff option.distinct(1) set_map)
  then have keys: "map fst (AList.update k v (cache_data s)) = map fst (cache_data s)"
    by (simp add: AList.update_keys)
  have p: "put MAX_ITEMS (Some k) (Some v) s = Inr (promote k f ?s1, [])"
    by (rule put_overwrite [OF ci assms(2) f])
  have g: "get (Some k) s = Inr (promote k f s, Some w)" by (rule get_promote [OF ci assms(2) f])
  show ?thesis
    by (intro exI [of _ "promote k f ?s1"] exI [of _ "promote k f s"] exI [of _ f])
      (simp add: p g f keys promote_def AList.update_conv')
qed

theorem put_existing_overwrites_and_promotes_witness:
  "run 2 example_calls init = Inr example_state \<and>
   map_of (cache_data example_state) ''B'' = Some 2 \<and> length (cache_data example_state) = 2 \<and>
   (\<exists>s'. put 2 (Some ''B'') (Some 5) example_state = Inr (s', []) \<and>
         cache_data s' = [(''A'', 1), (''B'', 5)] \<and> map_of (frequency s') ''B'' = Some 2)"
proof -
  have b: "map_of (cache_data example_state) ''B'' = Some 2" by (simp add: example_state_def)
  have l: "length (cache_data example_state) = 2" by (simp add: example_state_def)
  from put_existing_overwrites_and_promotes [OF example_run b, where v = 5]
  obtain s' f where p: "put 2 (Some ''B'') (Some 5) example_state = Inr (s', [])"
    and c: "cache_data s' = AList.update ''B'' 5 (cache_data example_state)"
    and f: "map_of (frequency example_state) ''B'' = Some f"
      "map_of (frequency s') ''B'' = Some (f + 1)"
    by blast
  from c have "cache_data s' = [(''A'', 1), (''B'', 5)]" by (simp add: example_state_def)
  moreover from f have "map_of (frequency s') ''B'' = Some 2" by (simp add: example_state_def)
  ultimately show ?thesis using p b l example_run by blast
qed

text \<open>The entries of a dictionary under one key.\<close>

lemma filter_key_single:
  "distinct (map fst al) \<Longrightarrow> map_of al k = Some v \<Longrightarrow> filter (\<lambda>p. fst p = k) al = [(k, v)]"
proof (induction al)
  case Nil
  then show ?case by simp
next
  case (Cons p ps)
  show ?case
  proof (cases "fst p = k")
    case True
    with Cons.prems have "p = (k, v)" and "\<forall>q \<in> set ps. fst q \<noteq> k" by (auto simp: image_iff)
    then show ?thesis by (simp add: filter_empty_conv)
  next
    case False
    with Cons show ?thesis by simp
  qed
qed

lemma filter_eq_single: "distinct xs \<Longrightarrow> e \<in> set xs \<Longrightarrow> filter (\<lambda>x. x = e) xs = [e]"
  by (induction xs) (auto simp: filter_empty_conv)

text \<open>
  Claim C5. In every reachable state, each key of the value store has exactly one entry in
  the frequency map, say with frequency \<open>f\<close>; the entries of the index whose bucket contains
  the key are exactly the one for \<open>f\<close>, where the key occurs once; and no entry of the index
  is an empty bucket.
\<close>

theorem every_key_in_the_bucket_of_its_frequency:
  assumes "run MAX_ITEMS cs init = Inr s"
  shows "(\<forall>k \<in> fst ` set (cache_data s). \<exists>f n.
            filter (\<lambda>p. fst p = k) (frequency s) = [(k, f)] \<and>
            map fst (filter (\<lambda>p. k \<in> fst ` set (snd p)) (lru s)) = [f] \<and>
            filter (\<lambda>p. fst p = k) (bucket (lru s) f) = [(k, n)]) \<and>
         (\<forall>p \<in> set (lru s). snd p \<noteq> [])"
proof (intro conjI ballI)
  from assms have ci: "cache_inv s" by (rule reachable_cache_inv)
  then have ok: "index_ok (map_of (frequency s)) (lru s) (lru_counter s)"
    and dl: "distinct (map fst (lru s))" and df: "distinct (map fst (frequency s))"
    by (simp_all add: cache_inv_def index_ok_def)
  {
    fix p assume "p \<in> set (lru s)"
    with dl have "map_of (lru s) (fst p) = Some (snd p)" by simp
    moreover from ok have "\<forall>f b. map_of (lru s) f = Some b \<longrightarrow> b \<noteq> []"
      unfolding index_ok_def by blast
    ultimately show "snd p \<noteq> []" by blast
  }
  fix k assume "k \<in> fst ` set (cache_data s)"
  then obtain v where "map_of (cache_data s) k = Some v"
    by (metis map_of_eq_None_iff not_Some_eq)
  from cache_inv_indexed [OF ci this] obtain f n where
    f: "map_of (frequency s) k = Some f" and n: "map_of (bucket (lru s) f) k = Some n"
    by blast
  from ok have db: "distinct (map fst (bucket (lru s) f))" by (simp add: index_ok_def)
  from n obtain b where b: "map_of (lru s) f = Some b" "bucket (lru s) f = b"
    by (auto simp: bucket_def split: option.splits)
  have same: "k \<in> fst ` set (snd p) \<longleftrightarrow> fst p = f" if p: "p \<in> set (lru s)" for p
  proof
    assume "k \<in> fst ` set (snd p)"
    then obtain m where m: "(k, m) \<in> set (snd p)" by auto
    from dl p have "map_of (lru s) (fst p) = Some (snd p)" by simp
    then have "bucket (lru s) (fst p) = snd p" by (simp add: bucket_def)
    with m bucket_member_frequency [OF ci, of k m "fst p"] f show "fst p = f" by simp
  next
    assume "fst p = f"
    moreover from dl p have "map_of (lru s) (fst p) = Some (snd p)" by simp
    ultimately have "snd p = bucket (lru s) f" by (simp add: bucket_def)
    with n show "k \<in> fst ` set (snd p)" by (metis map_of_eq_None_iff option.distinct(1))
  qed
  have "filter (\<lambda>p. k \<in> fst ` set (snd p)) (lru s) = filter (\<lambda>p. fst p = f) (lru s)"
    by (rule filter_cong) (simp_all add: same)
  also have "\<dots> = [(f, b)]" by (rule filter_key_single [OF dl b(1)])
  finally have "map fst (filter (\<lambda>p. k \<in> fst ` set (snd p)) (lru s)) = [f]" by simp
  with filter_key_single [OF df f] filter_key_single [OF db n]
  show "\<exists>f n. filter (\<lambda>p. fst p = k) (frequency s) = [(k, f)] \<and>
            map fst (filter (\<lambda>p. k \<in> fst ` set (snd p)) (lru s)) = [f] \<and>
            filter (\<lambda>p. fst p = k) (bucket (lru s) f) = [(k, n)]"
    by (intro exI [of _ f] exI [of _ n]) simp
qed

theorem every_key_in_the_bucket_of_its_frequency_witness:
  "run 2 example_calls init = Inr example_state \<and>
   ''A'' \<in> fst ` set (cache_data example_state) \<and>
   (\<exists>f n. filter (\<lambda>p. fst p = ''A'') (frequency example_state) = [(''A'', f)] \<and>
          map fst (filter (\<lambda>p. ''A'' \<in> fst ` set (snd p)) (lru example_state)) = [f] \<and>
          filter (\<lambda>p. fst p = ''A'') (bucket (lru example_state) f) = [(''A'', n)]) \<and>
   (1, [(''B'', 1)]) \<in> set (lru example_state) \<and> snd (1 :: int, [(''B'', 1 :: int)]) \<noteq> []"
proof -
  have a: "''A'' \<in> fst ` set (cache_data example_state)" by (simp add: example_state_def)
  have p: "(1, [(''B'', 1)]) \<in> set (lru example_state)" by (simp add: example_state_def)
  from every_key_in_the_bucket_of_its_frequency [OF example_run] a p example_run
  show ?thesis by blast
qed

text \<open>Under the invariant no branch of \<^verbatim>\<open>get\<close> or \<^verbatim>\<open>put\<close> raises.\<close>

lemma get_total: "cache_inv s \<Longrightarrow> \<exists>s' r. get key s = Inr (s', r)"
proof (cases key)
  case None
  then show ?thesis by (simp add: get_def)
next
  case (Some k)
  assume ci: "cache_inv s"
  show ?thesis
  proof (cases "map_of (cache_data s) k")
    case None
    with Some show ?thesis by (simp add: get_absent)
  next
    case v: (Some v)
    from cache_inv_indexed [OF ci v] obtain f where "map_of (frequency s) k = Some f" by blast
    from get_promote [OF ci v this] Some show ?thesis by simp
  qed
qed

lemma put_total:
  assumes ci: "cache_inv s" and M: "0 < M"
  shows "\<exists>s' out. put M key item s = Inr (s', out)"
proof (cases key)
  case None
  then show ?thesis by (simp add: put_def)
next
  case k: (Some k)
  show ?thesis
  proof (cases item)
    case None
    with k show ?thesis by (simp add: put_def)
  next
    case v: (Some v)
    show ?thesis
    proof (cases "map_of (cache_data s) k")
      case (Some w)
      from cache_inv_indexed [OF ci Some] obtain f where "map_of (frequency s) k = Some f" by blast
      from put_overwrite [OF ci Some this] k v show ?thesis by simp
    next
      case None
      show ?thesis
      proof (cases "length (cache_data s) < M")
        case True
        from put_room [OF None True] k v show ?thesis by simp
      next
        case False
        with M have "M \<le> length (cache_data s)" and "cache_data s \<noteq> []" by auto
        from put_full [OF ci None this] k v show ?thesis by blast
      qed
    qed
  qed
qed

text \<open>
  Claim C8. On a reachable cache with a positive \<open>MAX_ITEMS\<close>, \<^verbatim>\<open>put\<close> and \<^verbatim>\<open>get\<close> return
  for all arguments, \<^verbatim>\<open>None\<close> included, and raise nothing; when the store is full, the
  frequency map that \<^verbatim>\<open>min\<close> reads and the bucket that \<^verbatim>\<open>next(iter(...))\<close> reads are not
  empty. Both functions are total definitions without recursion, so they terminate.
\<close>

theorem put_and_get_never_raise:
  assumes "run MAX_ITEMS cs init = Inr s" and "0 < MAX_ITEMS"
  shows "(\<exists>s' out. put MAX_ITEMS key item s = Inr (s', out)) \<and>
         (\<exists>s' r. get key s = Inr (s', r)) \<and>
         (MAX_ITEMS \<le> length (cache_data s) \<longrightarrow>
            frequency s \<noteq> [] \<and> bucket (lru s) (min_list (map snd (frequency s))) \<noteq> [])"
proof (intro conjI impI)
  from assms(1) have ci: "cache_inv s" by (rule reachable_cache_inv)
  show "\<exists>s' out. put MAX_ITEMS key item s = Inr (s', out)" by (rule put_total [OF ci assms(2)])
  show "\<exists>s' r. get key s = Inr (s', r)" by (rule get_total [OF ci])
  assume "MAX_ITEMS \<le> length (cache_data s)"
  with assms(2) have ne: "cache_data s \<noteq> []" by auto
  with ci show "frequency s \<noteq> []" by (auto simp: cache_inv_def)
  from evict_discard [OF ci ne] show "bucket (lru s) (min_list (map snd (frequency s))) \<noteq> []"
    by auto
qed

theorem put_and_get_never_raise_witness:
  "run 2 example_calls init = Inr example_state \<and> (0::nat) < 2 \<and>
   2 \<le> length (cache_data example_state) \<and>
   (\<exists>s' out. put 2 (Some ''C'') (Some 3) example_state = Inr (s', out)) \<and>
   (\<exists>s' r. get (Some ''C'') example_state = Inr (s', r)) \<and>
   frequency example_state \<noteq> [] \<and>
   bucket (lru example_state) (min_list (map snd (frequency example_state))) \<noteq> []"
proof -
  have h: "(0::nat) < 2" by simp
  have l: "2 \<le> length (cache_data example_state)" by (simp add: example_state_def)
  from put_and_get_never_raise [OF example_run h, where key = "Some ''C''" and item = "Some 3"] l h example_run
  show ?thesis by blast
qed

text \<open>The states a successful call can lead to.\<close>

lemma get_cases:
  assumes "cache_inv s" and "get key s = Inr (s', r)"
  obtains (miss) "s' = s" and "r = None"
  | (hit) k f v where "key = Some k" and "map_of (cache_data s) k = Some v"
      and "map_of (frequency s) k = Some f" and "s' = promote k f s" and "r = Some v"
proof (cases key)
  case None
  with assms(2) miss show ?thesis by (simp add: get_def)
next
  case (Some k)
  show ?thesis
  proof (cases "map_of (cache_data s) k")
    case None
    with assms(2) Some miss show ?thesis by (simp add: get_absent)
  next
    case v: (Some v)
    from cache_inv_indexed [OF assms(1) v] obtain f where f: "map_of (frequency s) k = Some f"
      by blast
    from assms(2) Some get_promote [OF assms(1) v f] have "s' = promote k f s" "r = Some v"
      by simp_all
    with Some v f hit show ?thesis by blast
  qed
qed

lemma put_cases:
  assumes "cache_inv s" and "put M key item s = Inr (s', out)"
  obtains (ignored) "s' = s" and "out = []"
  | (overwritten) k f v w where "key = Some k" and "item = Some v"
      and "map_of (cache_data s) k = Some w" and "map_of (frequency s) k = Some f"
      and "s' = promote k f (s\<lparr>cache_data := AList.update k v (cache_data s)\<rparr>)" and "out = []"
  | (inserted) k v where "key = Some k" and "item = Some v"
      and "map_of (cache_data s) k = None" and "s' = insert_new k v s" and "out = []"
  | (replaced) k v e where "key = Some k" and "item = Some v"
      and "map_of (cache_data s) k = None" and "map_of (cache_data s) e \<noteq> None"
      and "map_of (frequency s) e = Some (min_list (map snd (frequency s)))"
      and "s' = insert_new k v (discard e (min_list (map snd (frequency s))) s)"
      and "out = [DISCARD e]"
proof (cases key)
  case None
  with assms(2) ignored show ?thesis by (simp add: put_def)
next
  case k: (Some k)
  show ?thesis
  proof (cases item)
    case None
    with assms(2) k ignored show ?thesis by (simp add: put_def)
  next
    case v: (Some v)
    show ?thesis
    proof (cases "map_of (cache_data s) k")
      case (Some w)
      from cache_inv_indexed [OF assms(1) Some] obtain f where f: "map_of (frequency s) k = Some f"
        by blast
      from assms(2) k v put_overwrite [OF assms(1) Some f, of M v]
      have "s' = promote k f (s\<lparr>cache_data := AList.update k v (cache_data s)\<rparr>)" "out = []"
        by simp_all
      with k v Some f overwritten show ?thesis by blast
    next
      case None
      show ?thesis
      proof (cases "length (cache_data s) < M")
        case True
        from assms(2) k v put_room [OF None True, of v] have "s' = insert_new k v s" "out = []"
          by simp_all
        with k v None inserted show ?thesis by blast
      next
        case False
        then have full: "M \<le> length (cache_data s)" by simp
        show ?thesis
        proof (cases "cache_data s = []")
          case True
          with assms(2) k v put_empty_full [OF assms(1) full] show ?thesis by simp
        next
          case ne: False
          from put_full [OF assms(1) None full ne, of v] assms(2) k v obtain e where
            "map_of (frequency s) e = Some (min_list (map snd (frequency s)))"
            "map_of (cache_data s) e \<noteq> None"
            "s' = insert_new k v (discard e (min_list (map snd (frequency s))) s)"
            "out = [DISCARD e]"
            by auto
          with k v None replaced show ?thesis by blast
        qed
      qed
    qed
  qed
qed

text \<open>
  Claim C7. For one \<^verbatim>\<open>put\<close> or \<^verbatim>\<open>get\<close> call on a reachable cache: a key that is stored
  before and after the call has a frequency of at least 1 before, and one at least as large
  after; a key that is stored after the call and was not before is the key the call put,
  and its frequency is 1.
\<close>

theorem frequency_never_decreases:
  assumes "run MAX_ITEMS cs init = Inr s" and "exec MAX_ITEMS c s = Inr s'"
  shows "(map_of (cache_data s) k \<noteq> None \<and> map_of (cache_data s') k \<noteq> None \<longrightarrow>
           (\<exists>f f'. map_of (frequency s) k = Some f \<and> map_of (frequency s') k = Some f' \<and>
                    1 \<le> f \<and> f \<le> f')) \<and>
         (map_of (cache_data s) k = None \<and> map_of (cache_data s') k \<noteq> None \<longrightarrow>
           (\<exists>v. c = Put (Some k) (Some v)) \<and> map_of (frequency s') k = Some 1)"
proof -
  from assms(1) have ci: "cache_inv s" by (rule reachable_cache_inv)
  have live: "\<exists>f. map_of (frequency s) k = Some f \<and> 1 \<le> f" if "map_of (cache_data s) k \<noteq> None"
    using that cache_inv_indexed [OF ci, of k] by blast
  show ?thesis
  proof (cases c)
    case (Get key)
    with assms(2) obtain r where "get key s = Inr (s', r)" by (auto split: sum.splits)
    from ci this show ?thesis
    proof (cases rule: get_cases)
      case miss
      with live show ?thesis by auto
    next
      case (hit k0 f v)
      with live show ?thesis
        by (auto simp: map_of_promote_frequency cache_data_promote)
    qed
  next
    case (Put key item)
    with assms(2) obtain out where "put MAX_ITEMS key item s = Inr (s', out)"
      by (auto split: sum.splits)
    from ci this show ?thesis
    proof (cases rule: put_cases)
      case ignored
      with live show ?thesis by auto
    next
      case (overwritten k0 f v w)
      with live show ?thesis
        by (auto simp: map_of_promote_frequency cache_data_promote AList.update_conv')
    next
      case (inserted k0 v)
      with live Put show ?thesis
        by (auto simp: map_of_insert_new_frequency map_of_insert_new)
    next
      case (replaced k0 v e)
      with live Put show ?thesis
        by (auto simp: map_of_insert_new_frequency map_of_insert_new map_of_discard
            map_of_discard_frequency)
    qed
  qed
qed

theorem frequency_never_decreases_witness:
  "run 2 example_calls init = Inr example_state \<and>
   (\<exists>s'. exec 2 (Put (Some ''C'') (Some 3)) example_state = Inr s' \<and>
      map_of (cache_data example_state) ''A'' \<noteq> None \<and> map_of (cache_data s') ''A'' \<noteq> None \<and>
      (\<exists>f'. map_of (frequency s') ''A'' = Some f' \<and> 2 \<le> f') \<and>
      map_of (cache_data example_state) ''C'' = None \<and> map_of (cache_data s') ''C'' \<noteq> None \<and>
      map_of (frequency s') ''C'' = Some 1)"
proof -
  let ?s' = "\<lparr>cache_data = [(''A'', 1 :: int), (''C'', 3)], frequency = [(''A'', 2), (''C'', 1)],
           lru = [(2, [(''A'', 2)]), (1, [(''C'', 3)])], lru_counter = 4\<rparr>"
  have e: "exec 2 (Put (Some ''C'') (Some 3)) example_state = Inr ?s'"
    by (simp add: example_put)
  have a: "map_of (cache_data example_state) ''A'' \<noteq> None" "map_of (cache_data ?s') ''A'' \<noteq> None"
    and c: "map_of (cache_data example_state) ''C'' = None" "map_of (cache_data ?s') ''C'' \<noteq> None"
    by (simp_all add: example_state_def)
  from frequency_never_decreases [OF example_run e, of "''A''"] a
  obtain f f' where "map_of (frequency example_state) ''A'' = Some f"
    "map_of (frequency ?s') ''A'' = Some f'" "f \<le> f'"
    by blast
  then have fa: "\<exists>f'. map_of (frequency ?s') ''A'' = Some f' \<and> 2 \<le> f'"
    by (simp add: example_state_def)
  from frequency_never_decreases [OF example_run e, of "''C''"] c
  have "map_of (frequency ?s') ''C'' = Some 1" by blast
  with e a c fa example_run show ?thesis by blast
qed

text \<open>The keys of the store that a call removes.\<close>

lemma no_key_lost:
  assumes "\<And>k. map_of al k \<noteq> None \<Longrightarrow> map_of bl k \<noteq> None"
  shows "filter (\<lambda>k. map_of bl k = None) (map fst al) = []"
proof -
  have "map_of bl x \<noteq> None" if "x \<in> set (map fst al)" for x
  proof (rule assms)
    from that show "map_of al x \<noteq> None" by (simp add: map_of_eq_None_iff)
  qed
  then show ?thesis unfolding filter_empty_conv by blast
qed

lemma put_output:
  assumes ci: "cache_inv s" and p: "put M key item s = Inr (s', out)"
  shows "out = map DISCARD (filter (\<lambda>k. map_of (cache_data s') k = None) (map fst (cache_data s)))"
    (is "out = map DISCARD ?gone")
  using ci p
proof (cases rule: put_cases)
  case ignored
  have "?gone = []" unfolding ignored(1) by (rule no_key_lost)
  with ignored show ?thesis by simp
next
  case (overwritten k f v w)
  have "?gone = []"
    unfolding overwritten(5) by (rule no_key_lost) (simp add: cache_data_promote AList.update_conv')
  with overwritten show ?thesis by simp
next
  case (inserted k v)
  have "?gone = []" unfolding inserted(4) by (rule no_key_lost) (simp add: map_of_insert_new)
  with inserted show ?thesis by simp
next
  case (replaced k v e)
  from replaced(3,4) have ke: "k \<noteq> e" by auto
  have "?gone = filter (\<lambda>k'. k' = e) (map fst (cache_data s))"
  proof (rule filter_cong [OF refl])
    fix x assume "x \<in> set (map fst (cache_data s))"
    then have "map_of (cache_data s) x \<noteq> None" by (simp add: map_of_eq_None_iff)
    with ke show "(map_of (cache_data s') x = None) = (x = e)"
      unfolding replaced(6) by (simp add: map_of_insert_new map_of_discard)
  qed
  also have "\<dots> = [e]"
  proof (rule filter_eq_single)
    from ci show "distinct (map fst (cache_data s))" by (simp add: cache_inv_def)
    from replaced(4) show "e \<in> set (map fst (cache_data s))" by (simp add: map_of_eq_None_iff)
  qed
  finally show ?thesis using replaced(7) by simp
qed

lemma put_output_short:
  assumes "cache_inv s" and "put M key item s = Inr (s', out)"
  shows "length out \<le> 1"
  using assms by (cases rule: put_cases) simp_all

lemma get_keeps_store:
  assumes "cache_inv s" and "get key s = Inr (s', r)"
  shows "cache_data s' = cache_data s"
  using assms by (cases rule: get_cases) (simp_all add: cache_data_promote)

text \<open>
  Claim C9. On a reachable cache, the lines a \<^verbatim>\<open>put\<close> call prints are the \<^verbatim>\<open>DISCARD\<close> lines
  of the keys that were stored before the call and are not after it, one line for each,
  and there is at most one; \<^verbatim>\<open>get\<close>, which prints nothing, leaves the value store as it
  is, so it evicts nothing.
\<close>

theorem one_discard_line_per_eviction:
  assumes "run MAX_ITEMS cs init = Inr s"
  shows "(\<forall>s' out. put MAX_ITEMS key item s = Inr (s', out) \<longrightarrow>
            out = map DISCARD (filter (\<lambda>k. map_of (cache_data s') k = None) (map fst (cache_data s)))
            \<and> length out \<le> 1) \<and>
         (\<forall>s' r. get key s = Inr (s', r) \<longrightarrow> cache_data s' = cache_data s)"
proof -
  from assms have ci: "cache_inv s" by (rule reachable_cache_inv)
  show ?thesis
    using put_output [OF ci] put_output_short [OF ci] get_keeps_store [OF ci] by blast
qed

theorem one_discard_line_per_eviction_witness:
  "run 2 example_calls init = Inr example_state \<and>
   (\<exists>s' out. put 2 (Some ''C'') (Some 3) example_state = Inr (s', out) \<and>
      out = map DISCARD (filter (\<lambda>k. map_of (cache_data s') k = None)
              (map fst (cache_data example_state))) \<and> out = [DISCARD ''B'']) \<and>
   (\<exists>s' r. get (Some ''A'') example_state = Inr (s', r) \<and>
      cache_data s' = cache_data example_state)"
proof -
  from one_discard_line_per_eviction [OF example_run, where key = "Some ''C''" and item = "Some 3"]
    example_put
  have "\<exists>s' out. put 2 (Some ''C'') (Some 3) example_state = Inr (s', out) \<and>
      out = map DISCARD (filter (\<lambda>k. map_of (cache_data s') k = None)
              (map fst (cache_data example_state))) \<and> out = [DISCARD ''B'']"
    by blast
  moreover
  from one_discard_line_per_eviction [OF example_run, where key = "Some ''A''"] example_get
  have "\<exists>s' r. get (Some ''A'') example_state = Inr (s', r) \<and>
      cache_data s' = cache_data example_state"
    by blast
  ultimately show ?thesis using example_run by blast
qed

end
